theory Spec2Isabelle
  imports Main "HOL-Library.AList" "HOL-Library.Multiset"
begin

section \<open>Column reconciliation of \<open>standardize_data_copy.py\<close>\<close>

text \<open>
  The development embeds the column logic of \<^verbatim>\<open>standardize_data\<close> (lines 95 to 158 of
  \<^verbatim>\<open>src/standardize_data_copy.py\<close>) and of \<^verbatim>\<open>remove_column_numbering\<close> (lines 70
  to 79). Reading and writing files, path handling and the prompt loop are not modelled:
  the embedded function starts from the two data frames that \<^verbatim>\<open>read_file\<close> returned and
  ends with the frame that is handed to \<^verbatim>\<open>save_file\<close>.

  The code manipulates pandas objects, so the pandas operations it calls are modelled
  too, each as a small function of its own (\<open>getitem\<close>, \<open>setitem\<close>, \<open>reindex\<close>):
  \<^item> a column name is a Python \<^verbatim>\<open>str\<close>, modelled as a \<open>string\<close>; characters beyond
    Latin-1 are not represented, and among the represented ones the decimal digits
    that \<^verbatim>\<open>\d\<close> matches are exactly \<^verbatim>\<open>0\<close> to \<^verbatim>\<open>9\<close>;
  \<^item> a cell is opaque: \<open>Some x\<close> for a value, \<open>None\<close> for pandas' missing value (NaN);
  \<^item> the row index of every frame the program builds is a \<^verbatim>\<open>RangeIndex\<close>
    (\<^verbatim>\<open>read_csv\<close> and \<^verbatim>\<open>read_excel\<close> are called without an index column), so an index
    is modelled by its length.
\<close>

subsection \<open>Data frames\<close>

record 'a frame =
  index :: nat
  columns :: "(string \<times> 'a option list) list"

text \<open>\<^verbatim>\<open>df.columns.tolist()\<close>\<close>

definition column_names :: "'a frame \<Rightarrow> string list" where
  "column_names df = map fst (columns df)"

text \<open>The invariant of a pandas frame: every column has one cell per index label.\<close>

definition well_formed :: "'a frame \<Rightarrow> bool" where
  "well_formed df = list_all (\<lambda>c. length (snd c) = index df) (columns df)"

text \<open>\<^verbatim>\<open>pd.DataFrame()\<close>: no column, empty index.\<close>

definition empty_frame :: "'a frame" where
  "empty_frame = \<lparr>index = 0, columns = []\<rparr>"

datatype error = KeyError | ValueError

text \<open>
  \<^verbatim>\<open>df[key]\<close> for a string key: a \<^verbatim>\<open>Series\<close> when exactly one column bears the name, a
  \<^verbatim>\<open>DataFrame\<close> of all the columns bearing it when there are several, \<^verbatim>\<open>KeyError\<close> when
  there is none.
\<close>

datatype 'a selection = Series "'a option list" | DataFrame "(string \<times> 'a option list) list"

definition getitem :: "'a frame \<Rightarrow> string \<Rightarrow> error + 'a selection" where
  "getitem df key =
     (case filter (\<lambda>c. fst c = key) (columns df) of
        [] \<Rightarrow> Inl KeyError
      | [c] \<Rightarrow> Inr (Series (snd c))
      | c # d # cs \<Rightarrow> Inr (DataFrame (c # d # cs)))"

text \<open>
  \<^verbatim>\<open>Series.reindex\<close> onto a range index of length \<open>n\<close>: the labels the series has keep
  their cell, the others get the missing value.
\<close>

definition reindex :: "'a option list \<Rightarrow> nat \<Rightarrow> 'a option list" where
  "reindex v n = map (\<lambda>i. if i < length v then v ! i else None) [0..<n]"

text \<open>
  \<^verbatim>\<open>DataFrame._ensure_valid_index\<close>: a frame whose index is empty takes the index of the
  first non-empty value assigned to it; the columns it already has are reindexed, which
  fills them with missing values.
\<close>

definition ensure_valid_index :: "'a frame \<Rightarrow> 'a option list \<Rightarrow> 'a frame" where
  "ensure_valid_index df v =
     (if index df = 0 \<and> 0 < length v
      then \<lparr>index = length v, columns = map (\<lambda>c. (fst c, reindex (snd c) (length v))) (columns df)\<rparr>
      else df)"

text \<open>
  \<^verbatim>\<open>df[key] = series\<close>: the series is aligned to the frame's index; an existing column of
  that name is replaced in place, a new name is appended on the right.
\<close>

definition set_item :: "'a frame \<Rightarrow> string \<Rightarrow> 'a option list \<Rightarrow> 'a frame" where
  "set_item df key v =
     (let df' = ensure_valid_index df v;
          arr = reindex v (index df')
      in if key \<in> set (column_names df')
         then df'\<lparr>columns := map (\<lambda>c. if fst c = key then (key, arr) else c) (columns df')\<rparr>
         else df'\<lparr>columns := columns df' @ [(key, arr)]\<rparr>)"

text \<open>
  \<^verbatim>\<open>df[key] = value\<close> for what \<open>getitem\<close> returned. Assigning a frame of several columns
  to one column name raises \<^verbatim>\<open>ValueError\<close> in pandas.
\<close>

definition setitem :: "'a frame \<Rightarrow> string \<Rightarrow> 'a selection \<Rightarrow> error + 'a frame" where
  "setitem df key sel =
     (case sel of Series v \<Rightarrow> Inr (set_item df key v) | DataFrame cs \<Rightarrow> Inl ValueError)"

subsection \<open>\<^verbatim>\<open>remove_column_numbering\<close>\<close>

definition is_digit :: "char \<Rightarrow> bool" where
  "is_digit c = (c \<in> set ''0123456789'')"

text \<open>
  The pattern \<^verbatim>\<open>\.\d+$\<close> at the very end of \<open>s\<close>: when \<open>s\<close> is \<open>p\<close>, a dot and a
  non-empty run of digits, the result is \<open>Some p\<close>. The run of digits is greedy, so it is
  the longest run of digits that ends \<open>s\<close>.
\<close>

definition match_at_end :: "string \<Rightarrow> string option" where
  "match_at_end s =
     (let r = rev s; ds = takeWhile is_digit r; rest = dropWhile is_digit r
      in case rest of
           [] \<Rightarrow> None
         | c # p \<Rightarrow> if ds \<noteq> [] \<and> c = CHR ''.'' then Some (rev p) else None)"

text \<open>
  \<^verbatim>\<open>new_col = re.sub(r'\.\d+$', '', col)\<close> (line 74). Without the \<^verbatim>\<open>MULTILINE\<close> flag \<^verbatim>\<open>$\<close>
  matches at the end of the string and also just before a newline that ends the string;
  in the second case the newline stays.
\<close>

definition new_col :: "string \<Rightarrow> string" where
  "new_col col =
     (case match_at_end col of
        Some p \<Rightarrow> p
      | None \<Rightarrow>
          (if col \<noteq> [] \<and> last col = CHR 0x0A
           then (case match_at_end (butlast col) of
                   Some p \<Rightarrow> p @ [CHR 0x0A]
                 | None \<Rightarrow> col)
           else col))"

text \<open>Lines 71 to 79: every column is renamed, the data stay.\<close>

definition remove_column_numbering :: "'a frame \<Rightarrow> 'a frame" where
  "remove_column_numbering df = df\<lparr>columns := map (\<lambda>c. (new_col (fst c), snd c)) (columns df)\<rparr>"

subsection \<open>Counting the columns\<close>

text \<open>
  A Python \<^verbatim>\<open>dict\<close> iterates in insertion order, and line 113 iterates over
  \<^verbatim>\<open>base_column_counts.items()\<close>, so the dictionaries are association lists in
  insertion order. \<open>AList.update\<close> replaces the value of a key in place and appends a
  new key, as \<^verbatim>\<open>d[k] = v\<close> does.
\<close>

definition dict_get :: "(string \<times> nat) list \<Rightarrow> string \<Rightarrow> nat \<Rightarrow> nat" where
  "dict_get d k dflt = (case map_of d k of Some v \<Rightarrow> v | None \<Rightarrow> dflt)"

text \<open>\<^verbatim>\<open>counts[col] = counts.get(col, 0) + 1\<close>\<close>

definition count_step :: "(string \<times> nat) list \<Rightarrow> string \<Rightarrow> (string \<times> nat) list" where
  "count_step d col = AList.update col (dict_get d col 0 + 1) d"

text \<open>Lines 98 to 100, and 107 to 109.\<close>

definition column_counts :: "string list \<Rightarrow> (string \<times> nat) list" where
  "column_counts cols = foldl count_step [] cols"

text \<open>Lines 112 to 115.\<close>

definition missing_instances ::
  "(string \<times> nat) list \<Rightarrow> (string \<times> nat) list \<Rightarrow> (string \<times> nat \<times> nat) list" where
  "missing_instances base_column_counts new_column_counts =
     map (\<lambda>(col, count). (col, count, dict_get new_column_counts col 0))
       (filter (\<lambda>(col, count).
                  (case map_of new_column_counts col of None \<Rightarrow> True | Some c \<Rightarrow> c < count))
          base_column_counts)"

text \<open>Lines 127 to 133.\<close>

fun unique_loop :: "string list \<Rightarrow> string list \<Rightarrow> string set \<Rightarrow> string list" where
  "unique_loop [] unique processed = unique"
| "unique_loop (col # cols) unique processed =
     (if col \<notin> processed
      then unique_loop cols (unique @ [col]) (insert col processed)
      else unique_loop cols unique processed)"

definition unique_columns :: "string list \<Rightarrow> string list" where
  "unique_columns base_columns = unique_loop base_columns [] {}"

subsection \<open>Building the standardized frame\<close>

text \<open>Python's \<^verbatim>\<open>str\<close> of a natural number.\<close>

fun str_nat :: "nat \<Rightarrow> string" where
  "str_nat n =
     (if n < 10 then [''0123456789'' ! n]
      else str_nat (n div 10) @ [''0123456789'' ! (n mod 10)])"

declare str_nat.simps [simp del]

text \<open>\<^verbatim>\<open>f"{col}_{i+1}"\<close>\<close>

definition instance_name :: "string \<Rightarrow> nat \<Rightarrow> string" where
  "instance_name col i = col @ ''_'' @ str_nat (i + 1)"

text \<open>
  Lines 150 to 155, the loop over \<^verbatim>\<open>range(required_count)\<close>.
  \<^verbatim>\<open>pd.Series(dtype='object')\<close> is the series with no cell.
\<close>

fun add_instances ::
  "'a frame \<Rightarrow> 'a frame \<Rightarrow> string \<Rightarrow> string list \<Rightarrow> nat list \<Rightarrow> error + 'a frame" where
  "add_instances standardized_df new_df col new_col_instances [] = Inr standardized_df"
| "add_instances standardized_df new_df col new_col_instances (i # more_is) =
     (case (if i < length new_col_instances
            then (case getitem new_df (new_col_instances ! i) of
                    Inl e \<Rightarrow> Inl e
                  | Inr sel \<Rightarrow> setitem standardized_df (instance_name col i) sel)
            else Inr (set_item standardized_df (instance_name col i) []))
      of Inl e \<Rightarrow> Inl e
       | Inr df \<Rightarrow> add_instances df new_df col new_col_instances more_is)"

text \<open>Lines 137 to 155, the body of the loop over \<^verbatim>\<open>unique_columns\<close>.\<close>

definition process_column ::
  "(string \<times> nat) list \<Rightarrow> 'a frame \<Rightarrow> 'a frame \<Rightarrow> string \<Rightarrow> error + 'a frame" where
  "process_column base_column_counts new_df standardized_df col =
     (let new_col_instances = filter (\<lambda>c. c = col) (column_names new_df)
      in case map_of base_column_counts col of
           None \<Rightarrow> Inl KeyError
         | Some required_count \<Rightarrow>
             if required_count = 1
             then (if new_col_instances \<noteq> []
                   then (case getitem new_df (new_col_instances ! 0) of
                           Inl e \<Rightarrow> Inl e
                         | Inr sel \<Rightarrow> setitem standardized_df col sel)
                   else Inr (set_item standardized_df col []))
             else add_instances standardized_df new_df col new_col_instances [0..<required_count])"

text \<open>Line 136: the loop stops at the first exception.\<close>

fun process_columns ::
  "(string \<times> nat) list \<Rightarrow> 'a frame \<Rightarrow> 'a frame \<Rightarrow> string list \<Rightarrow> error + 'a frame" where
  "process_columns base_column_counts new_df standardized_df [] = Inr standardized_df"
| "process_columns base_column_counts new_df standardized_df (col # cols) =
     (case process_column base_column_counts new_df standardized_df col of
        Inl e \<Rightarrow> Inl e
      | Inr df \<Rightarrow> process_columns base_column_counts new_df df cols)"

text \<open>
  Lines 95 to 158. The first component is \<^verbatim>\<open>missing_instances\<close>, the triples
  (name, required, found) that lines 117 to 121 print as the warning. The second is the
  frame passed to \<^verbatim>\<open>save_file\<close>, or the exception that the handler of line 176 catches,
  in which case nothing is saved.
\<close>

definition standardize_data ::
  "'b frame \<Rightarrow> 'a frame \<Rightarrow> (string \<times> nat \<times> nat) list \<times> (error + 'a frame)" where
  "standardize_data base_df new_df =
     (let base_columns = column_names base_df;
          base_column_counts = column_counts base_columns;
          new_columns = column_names new_df;
          new_column_counts = column_counts new_columns;
          missing = missing_instances base_column_counts new_column_counts
      in (missing,
          case process_columns base_column_counts new_df empty_frame (unique_columns base_columns) of
            Inl e \<Rightarrow> Inl e
          | Inr standardized_df \<Rightarrow> Inr (remove_column_numbering standardized_df)))"

subsection \<open>Notions used in the statements\<close>

text \<open>
  \<^verbatim>\<open>re.search(r'\.\d+$', s) is not None\<close>: the name still ends in a dot-number group
  (before a final newline, if it has one).
\<close>

definition numbered :: "string \<Rightarrow> bool" where
  "numbered s =
     (case match_at_end s of
        Some p \<Rightarrow> True
      | None \<Rightarrow> s \<noteq> [] \<and> last s = CHR 0x0A \<and> match_at_end (butlast s) \<noteq> None)"

text \<open>
  A dot-number group, the text that the pattern \<^verbatim>\<open>\.\d+\<close> matches as a whole: a dot and
  one or more digits.
\<close>

definition dot_group :: "string \<Rightarrow> bool" where
  "dot_group g = (case g of [] \<Rightarrow> False | c # ds \<Rightarrow> c = CHR ''.'' \<and> ds \<noteq> [] \<and> list_all is_digit ds)"

text \<open>What \<^verbatim>\<open>$\<close> allows after the match: nothing, or the one newline that ends the name.\<close>

definition line_end :: "string \<Rightarrow> bool" where
  "line_end e = (e = [] \<or> e = [CHR 0x0A])"

text \<open>The position of the first column that bears the name.\<close>

definition first_index :: "string list \<Rightarrow> string \<Rightarrow> nat" where
  "first_index cols name = length (takeWhile (\<lambda>c. c \<noteq> name) cols)"

text \<open>
  The cells of the first column that bears the name, and no cell when no column does.
  When exactly one column bears the name, this is the series that \<open>getitem\<close> returns.
\<close>

definition column_data :: "'a frame \<Rightarrow> string \<Rightarrow> 'a option list" where
  "column_data df key = (case filter (\<lambda>c. fst c = key) (columns df) of [] \<Rightarrow> [] | c # cs \<Rightarrow> snd c)"

text \<open>
  The assignments \<^verbatim>\<open>standardized_df[key] = series\<close> that the loop of lines 136 to 155
  performs for one reference name when no exception is raised: the key is the name itself
  when it is required once, and \<^verbatim>\<open>name_1\<close>, \<^verbatim>\<open>name_2\<close>, ... otherwise; the first instance
  takes the target's column of that name, every other instance (and the first too, when
  the target has no such column) takes the series without cells.
\<close>

definition assignments_of :: "'a frame \<Rightarrow> string \<Rightarrow> nat \<Rightarrow> (string \<times> 'a option list) list" where
  "assignments_of new_df col required =
     map (\<lambda>i. (if required = 1 then col else instance_name col i,
                if i = 0 then column_data new_df col else []))
       [0..<required]"

text \<open>All the assignments, reference names in the order of \<^verbatim>\<open>unique_columns\<close>.\<close>

definition assignments :: "string list \<Rightarrow> 'a frame \<Rightarrow> (string \<times> 'a option list) list" where
  "assignments base_columns new_df =
     concat (map (\<lambda>col. assignments_of new_df col (count_list base_columns col))
               (unique_columns base_columns))"

text \<open>One assignment, and the keys of the assignments (the names before the final renaming).\<close>

definition assign :: "'a frame \<Rightarrow> string \<times> 'a option list \<Rightarrow> 'a frame" where
  "assign df kv = set_item df (fst kv) (snd kv)"



text \<open>
  A frame of \<open>n\<close> rows or none, each of whose columns is entirely missing values or is
  one of the series in \<open>D\<close>.
\<close>

definition padded :: "nat \<Rightarrow> 'a option list set \<Rightarrow> 'a frame \<Rightarrow> bool" where
  "padded n D df \<longleftrightarrow>
     (index df = 0 \<or> index df = n)
     \<and> (\<forall>c \<in> set (columns df). snd c = replicate (index df) None \<or> (snd c \<in> D \<and> index df = n))"

section \<open>Properties\<close>

subsection \<open>Removing the numbering\<close>

lemma match_at_end_SomeD:
  assumes "match_at_end s = Some p"
  shows "\<exists>ds. s = p @ CHR ''.'' # ds \<and> ds \<noteq> [] \<and> list_all is_digit ds"
proof -
  let ?r = "rev s"
  from assms obtain q where q: "dropWhile is_digit ?r = CHR ''.'' # q" "takeWhile is_digit ?r \<noteq> []" "p = rev q"
    by (auto simp: match_at_end_def Let_def split: list.splits if_splits)
  have "?r = takeWhile is_digit ?r @ dropWhile is_digit ?r" by simp
  then have "s = rev (dropWhile is_digit ?r) @ rev (takeWhile is_digit ?r)"
    by (metis rev_append rev_rev_ident)
  with q have "s = p @ CHR ''.'' # rev (takeWhile is_digit ?r)" by simp
  moreover have "list_all is_digit (rev (takeWhile is_digit ?r))"
    by (simp add: list_all_iff) (metis set_takeWhileD)
  ultimately show ?thesis using q(2) by (metis rev_is_Nil_conv)
qed

lemma match_at_end_shorter: "match_at_end s = Some p \<Longrightarrow> length p < length s"
  by (drule match_at_end_SomeD) auto

lemma new_col_fixed_iff: "new_col s = s \<longleftrightarrow> \<not> numbered s"
proof (cases "match_at_end s")
  case (Some p)
  then show ?thesis using match_at_end_shorter[OF Some] by (auto simp: new_col_def numbered_def)
next
  case None
  show ?thesis
  proof (cases "s \<noteq> [] \<and> last s = CHR 0x0A")
    case True
    show ?thesis
    proof (cases "match_at_end (butlast s)")
      case N2: None
      then show ?thesis using None True by (simp add: new_col_def numbered_def)
    next
      case (Some p)
      then have "length p < length (butlast s)" by (rule match_at_end_shorter)
      then have "length (p @ [CHR 0x0A]) < length s" by simp
      then have "p @ [CHR 0x0A] \<noteq> s" by blast
      then show ?thesis using None True Some by (simp add: new_col_def numbered_def)
    qed
  next
    case False
    then show ?thesis using None by (auto simp: new_col_def numbered_def)
  qed
qed

lemma no_dot_not_numbered:
  assumes "CHR ''.'' \<notin> set s"
  shows "\<not> numbered s"
proof -
  have a: "match_at_end s = None"
  proof (cases "match_at_end s")
    case (Some p)
    from match_at_end_SomeD[OF this] assms show ?thesis by auto
  qed simp
  have b: "match_at_end (butlast s) = None"
  proof (cases "match_at_end (butlast s)")
    case (Some p)
    from match_at_end_SomeD[OF this] obtain ds where "butlast s = p @ CHR ''.'' # ds" by blast
    then have "CHR ''.'' \<in> set (butlast s)" by simp
    then show ?thesis using assms by (auto dest: in_set_butlastD)
  qed simp
  show ?thesis using a b by (simp add: numbered_def)
qed

lemma one_dot_idem:
  assumes "count_list s (CHR ''.'') \<le> 1"
  shows "new_col (new_col s) = new_col s"
proof (cases "match_at_end s")
  case (Some p)
  from match_at_end_SomeD[OF this] obtain ds where s: "s = p @ CHR ''.'' # ds" by blast
  with assms have "count_list p (CHR ''.'') = 0" by simp
  then have "CHR ''.'' \<notin> set p" by (simp add: count_list_0_iff)
  then have "new_col p = p" by (simp add: new_col_fixed_iff no_dot_not_numbered)
  moreover have "new_col s = p" using Some by (simp add: new_col_def)
  ultimately show ?thesis by simp
next
  case None
  show ?thesis
  proof (cases "s \<noteq> [] \<and> last s = CHR 0x0A \<and> match_at_end (butlast s) \<noteq> None")
    case True
    then obtain p where p: "match_at_end (butlast s) = Some p" by auto
    from match_at_end_SomeD[OF this] obtain ds where b: "butlast s = p @ CHR ''.'' # ds" by blast
    from True have "butlast s @ [CHR 0x0A] = s" by (metis append_butlast_last_id)
    then have "count_list (butlast s @ [CHR 0x0A]) (CHR ''.'') = count_list s (CHR ''.'')"
      by (rule arg_cong)
    then have "count_list (butlast s) (CHR ''.'') = count_list s (CHR ''.'')" by simp
    with assms b have "count_list p (CHR ''.'') = 0" by simp
    then have "CHR ''.'' \<notin> set (p @ [CHR 0x0A])" by (simp add: count_list_0_iff)
    then have "new_col (p @ [CHR 0x0A]) = p @ [CHR 0x0A]"
      by (simp only: new_col_fixed_iff no_dot_not_numbered not_False_eq_True)
    moreover have "new_col s = p @ [CHR 0x0A]" using None True p by (simp add: new_col_def)
    ultimately show ?thesis by simp
  next
    case False
    then have "new_col s = s" using None by (auto simp: new_col_def split: option.splits)
    then show ?thesis by simp
  qed
qed


lemma match_at_end_group:
  assumes "ds \<noteq> []" and "list_all is_digit ds"
  shows "match_at_end (p @ CHR ''.'' # ds) = Some p"
proof -
  have d: "\<And>x. x \<in> set ds \<Longrightarrow> is_digit x" using assms(2) by (simp add: list_all_iff)
  have n: "\<not> is_digit (CHR ''.'')" by (simp add: is_digit_def)
  have r: "rev (p @ CHR ''.'' # ds) = rev ds @ CHR ''.'' # rev p" by simp
  have "takeWhile is_digit (rev ds @ CHR ''.'' # rev p)
        = rev ds @ takeWhile is_digit (CHR ''.'' # rev p)"
    by (rule takeWhile_append2) (simp add: d)
  then have t: "takeWhile is_digit (rev ds @ CHR ''.'' # rev p) = rev ds" using n by simp
  have "dropWhile is_digit (rev ds @ CHR ''.'' # rev p) = dropWhile is_digit (CHR ''.'' # rev p)"
    by (rule dropWhile_append2) (simp add: d)
  then have dr: "dropWhile is_digit (rev ds @ CHR ''.'' # rev p) = CHR ''.'' # rev p"
    using n by simp
  show ?thesis unfolding match_at_end_def r Let_def t dr using assms(1) by simp
qed

lemma match_at_end_newline: "match_at_end (s @ [CHR 0x0A]) = None"
  by (simp add: match_at_end_def is_digit_def)

lemma new_col_group:
  assumes "dot_group g" and "line_end e"
  shows "new_col (p @ g @ e) = p @ e"
proof -
  from assms(1) obtain ds where g: "g = CHR ''.'' # ds" and ds: "ds \<noteq> []" "list_all is_digit ds"
    by (auto simp: dot_group_def split: list.splits)
  have m: "match_at_end (p @ g) = Some p" unfolding g by (rule match_at_end_group[OF ds])
  from assms(2) consider "e = []" | "e = [CHR 0x0A]" by (auto simp: line_end_def)
  then show ?thesis
  proof cases
    case 1
    then show ?thesis using m by (simp add: new_col_def)
  next
    case 2
    have "match_at_end ((p @ g) @ [CHR 0x0A]) = None" by (rule match_at_end_newline)
    then have "new_col ((p @ g) @ [CHR 0x0A]) = p @ [CHR 0x0A]"
      using m by (simp add: new_col_def del: append_assoc)
    then show ?thesis using 2 by simp
  qed
qed

lemma numbered_iff: "numbered s \<longleftrightarrow> (\<exists>p g e. s = p @ g @ e \<and> dot_group g \<and> line_end e)"
proof
  assume n: "numbered s"
  show "\<exists>p g e. s = p @ g @ e \<and> dot_group g \<and> line_end e"
  proof (cases "match_at_end s")
    case (Some p)
    from match_at_end_SomeD[OF this] obtain ds
      where "s = p @ CHR ''.'' # ds" "ds \<noteq> []" "list_all is_digit ds" by blast
    then have "s = p @ (CHR ''.'' # ds) @ [] \<and> dot_group (CHR ''.'' # ds) \<and> line_end []"
      by (simp add: dot_group_def line_end_def)
    then show ?thesis by blast
  next
    case None
    with n have s: "s \<noteq> []" "last s = CHR 0x0A" and "match_at_end (butlast s) \<noteq> None"
      by (auto simp: numbered_def)
    then obtain p where "match_at_end (butlast s) = Some p" by auto
    from match_at_end_SomeD[OF this] obtain ds
      where b: "butlast s = p @ CHR ''.'' # ds" "ds \<noteq> []" "list_all is_digit ds" by blast
    from s have "butlast s @ [CHR 0x0A] = s" by (metis append_butlast_last_id)
    with b(1) have "s = p @ (CHR ''.'' # ds) @ [CHR 0x0A]" by simp
    moreover have "dot_group (CHR ''.'' # ds) \<and> line_end [CHR 0x0A]"
      using b(2,3) by (simp add: dot_group_def line_end_def)
    ultimately show ?thesis by blast
  qed
next
  assume "\<exists>p g e. s = p @ g @ e \<and> dot_group g \<and> line_end e"
  then obtain p g e where s: "s = p @ g @ e" and g: "dot_group g" and e: "line_end e" by blast
  from g have "g \<noteq> []" by (auto simp: dot_group_def)
  then have "length (p @ e) < length (p @ g @ e)" by simp
  then have "p @ e \<noteq> p @ g @ e" by (metis less_irrefl)
  then have "new_col s \<noteq> s" unfolding s new_col_group[OF g e] .
  then show "numbered s" by (simp add: new_col_fixed_iff)
qed

text \<open>
  C5 (suffix idempotence), as the specification states it: stripping twice is the same as
  stripping once, for every column name. The substitution removes one group per call, so
  the statement fails on a name that ends in two groups.
\<close>

theorem strip_twice_counterexample:
  "new_col ''a.1.2'' = ''a.1'' \<and> new_col (new_col ''a.1.2'') = ''a''
   \<and> new_col (new_col ''a.1.2'') \<noteq> new_col ''a.1.2''"
  by (simp add: new_col_def match_at_end_def is_digit_def)

text \<open>
  C5, amended. Say that a name ends in a dot-number group when it is some text \<open>p\<close>, then
  a dot and one or more digits (the group \<open>g\<close>), then nothing more or one final newline
  (\<open>e\<close>); this is when the pattern of line 74 matches, and \<open>numbered\<close> decides it. Then
  \<^item> stripping twice equals stripping once exactly when the name stripped once does not end
    in a dot-number group, in this sense, any more;
  \<^item> one application removes exactly the last group and keeps the final newline: it takes
    \<open>p @ g @ e\<close> to \<open>p @ e\<close>, and leaves every name that does not end in a dot-number group
    as it is;
  \<^item> stripping twice equals stripping once for every name with at most one dot.
\<close>

theorem strip_twice:
  "(new_col (new_col s) = new_col s \<longleftrightarrow> \<not> numbered (new_col s))
   \<and> (numbered s \<longleftrightarrow> (\<exists>p g e. s = p @ g @ e \<and> dot_group g \<and> line_end e))
   \<and> (dot_group g \<and> line_end e \<longrightarrow> new_col (p @ g @ e) = p @ e)
   \<and> (\<not> numbered s \<longrightarrow> new_col s = s)
   \<and> (count_list s (CHR ''.'') \<le> 1 \<longrightarrow> new_col (new_col s) = new_col s)"
  by (simp add: new_col_fixed_iff one_dot_idem numbered_iff [symmetric] new_col_group)

theorem strip_twice_witness:
  "dot_group ''.1'' \<and> line_end [] \<and> new_col ''Header.1'' = ''Header''
   \<and> numbered ''Header.1'' \<and> \<not> numbered ''Header'' \<and> new_col ''Header'' = ''Header''
   \<and> count_list ''Header.1'' (CHR ''.'') \<le> 1
   \<and> new_col (new_col ''Header.1'') = new_col ''Header.1''
   \<and> dot_group ''.2'' \<and> line_end [CHR 0x0A]
   \<and> new_col (''a.1'' @ ''.2'' @ [CHR 0x0A]) = ''a.1'' @ [CHR 0x0A]
   \<and> numbered (''a.1'' @ [CHR 0x0A])
   \<and> new_col (new_col (''a.1.2'' @ [CHR 0x0A])) \<noteq> new_col (''a.1.2'' @ [CHR 0x0A])"
proof -
  have g: "dot_group ''.1'' \<and> line_end [] \<and> dot_group ''.2'' \<and> line_end [CHR 0x0A]"
    by (simp add: dot_group_def line_end_def is_digit_def)
  have n: "\<not> numbered ''Header''"
    by (simp add: numbered_def match_at_end_def is_digit_def)
  have c: "count_list ''Header.1'' (CHR ''.'') \<le> 1" by simp
  have a: "''Header.1'' = ''Header'' @ ''.1'' @ []"
          "''a.1.2'' @ [CHR 0x0A] = ''a.1'' @ ''.2'' @ [CHR 0x0A]"
          "''a.1'' @ [CHR 0x0A] = ''a'' @ ''.1'' @ [CHR 0x0A]" by simp_all
  have h1: "new_col ''Header.1'' = ''Header''"
    using g strip_twice [where g = "''.1''" and e = "[]" and p = "''Header''"] by simp
  have h2: "numbered ''Header.1''"
    using g a(1) strip_twice [where s = "''Header.1''"] by blast
  have h3: "new_col ''Header'' = ''Header''"
    using n strip_twice [where s = "''Header''"] by blast
  have h4: "new_col (new_col ''Header.1'') = new_col ''Header.1''"
    using c strip_twice [where s = "''Header.1''"] by blast
  have k1: "new_col (''a.1'' @ ''.2'' @ [CHR 0x0A]) = ''a.1'' @ [CHR 0x0A]"
    using g strip_twice [where g = "''.2''" and e = "[CHR 0x0A]" and p = "''a.1''"] by blast
  have k2: "numbered (''a.1'' @ [CHR 0x0A])"
    using g a(3) strip_twice [where s = "''a.1'' @ [CHR 0x0A]"] by blast
  have k3: "new_col (new_col (''a.1.2'' @ [CHR 0x0A])) \<noteq> new_col (''a.1.2'' @ [CHR 0x0A])"
    using k1 k2 a(2) strip_twice [where s = "''a.1.2'' @ [CHR 0x0A]"] by metis
  show ?thesis using g n c h1 h2 h3 h4 k1 k2 k3 by blast
qed

subsection \<open>The census\<close>

lemma dict_get_Cons: "dict_get (p # ps) k dflt = (if fst p = k then snd p else dict_get ps k dflt)"
  by (cases p) (simp add: dict_get_def)

lemma sum_count_step: "sum_list (map snd (count_step d k)) = sum_list (map snd d) + 1"
  unfolding count_step_def
proof (induction d)
  case Nil
  show ?case by (simp add: dict_get_def)
next
  case (Cons p ps)
  show ?case
  proof (cases "fst p = k")
    case True
    then show ?thesis by (simp add: dict_get_Cons)
  next
    case False
    with Cons show ?thesis by (simp add: dict_get_Cons)
  qed
qed

lemma foldl_counts_sum:
  "sum_list (map snd (foldl count_step d cols)) = sum_list (map snd d) + length cols"
  by (induction cols arbitrary: d) (simp_all add: sum_count_step)

lemma map_of_count_step:
  "map_of (count_step d c) name = (if name = c then Some (dict_get d c 0 + 1) else map_of d name)"
  by (simp add: count_step_def update_conv)

lemma dict_get_count_step:
  "dict_get (count_step d c) name 0 = (if name = c then dict_get d c 0 + 1 else dict_get d name 0)"
  by (simp add: dict_get_def map_of_count_step)

lemma foldl_counts_map_of:
  "map_of (foldl count_step d cols) name
     = (if name \<in> set cols then Some (dict_get d name 0 + count_list cols name) else map_of d name)"
proof (induction cols arbitrary: d)
  case Nil
  show ?case by simp
next
  case (Cons c cs)
  show ?case
    by (simp add: Cons.IH map_of_count_step dict_get_count_step)
qed

lemma map_of_column_counts:
  "map_of (column_counts cols) name = (if name \<in> set cols then Some (count_list cols name) else None)"
  by (simp add: column_counts_def foldl_counts_map_of dict_get_def)

lemma unique_loop_split:
  "unique_loop xs u (set u) = u @ [y \<leftarrow> unique_loop xs [] {}. y \<notin> set u]"
proof (induction xs arbitrary: u)
  case Nil
  show ?case by simp
next
  case (Cons x xs)
  have one: "unique_loop xs [x] {x} = [x] @ [y \<leftarrow> unique_loop xs [] {}. y \<notin> set [x]]"
    using Cons.IH[of "[x]"] by simp
  show ?case
  proof (cases "x \<in> set u")
    case True
    have "[y \<leftarrow> unique_loop xs [] {}. y \<noteq> x \<and> y \<notin> set u] = [y \<leftarrow> unique_loop xs [] {}. y \<notin> set u]"
      using True by (intro filter_cong) auto
    then show ?thesis using True Cons.IH[of u] one by simp
  next
    case False
    have "[y \<leftarrow> unique_loop xs [] {}. y \<noteq> x \<and> y \<notin> set u] = [y \<leftarrow> unique_loop xs [] {}. y \<notin> set u \<and> y \<noteq> x]"
      by (intro filter_cong) auto
    then show ?thesis using False Cons.IH[of "u @ [x]"] one by simp
  qed
qed

lemma unique_columns_Nil [simp]: "unique_columns [] = []"
  by (simp add: unique_columns_def)

lemma unique_columns_Cons:
  "unique_columns (x # xs) = x # [y \<leftarrow> unique_columns xs. y \<noteq> x]"
  using unique_loop_split[of xs "[x]"] by (simp add: unique_columns_def)

lemma set_unique_columns [simp]: "set (unique_columns xs) = set xs"
  by (induction xs) (auto simp: unique_columns_Cons)

lemma distinct_unique_columns [simp]: "distinct (unique_columns xs)"
  by (induction xs) (auto simp: unique_columns_Cons)

lemma first_index_Cons:
  "first_index (x # xs) y = (if y = x then 0 else Suc (first_index xs y))"
  by (simp add: first_index_def)

lemma first_index_sorted:
  "sorted_wrt (<) (map (first_index xs) (unique_columns xs))"
proof (induction xs)
  case Nil
  show ?case by simp
next
  case (Cons x xs)
  let ?ys = "[y \<leftarrow> unique_columns xs. y \<noteq> x]"
  have eq: "map (first_index (x # xs)) ?ys = map Suc (map (first_index xs) ?ys)"
    by (simp add: first_index_Cons)
  have "sorted_wrt (<) (map (first_index xs) ?ys)"
    using Cons.IH by (simp add: sorted_wrt_map sorted_wrt_filter)
  then have "sorted_wrt (<) (map Suc (map (first_index xs) ?ys))"
    by (simp add: sorted_wrt_map)
  then have "sorted_wrt (<) (0 # map Suc (map (first_index xs) ?ys))"
    by simp
  moreover have "first_index (x # xs) x = 0" by (simp add: first_index_Cons)
  ultimately show ?case
    by (simp only: unique_columns_Cons list.map eq)
qed

lemma keys_count_step:
  "map fst (count_step d c) = (if c \<in> set (map fst d) then map fst d else map fst d @ [c])"
  by (simp add: count_step_def update_keys)

lemma keys_foldl_counts:
  "map fst (foldl count_step d cols) = unique_loop cols (map fst d) (set (map fst d))"
proof (induction cols arbitrary: d)
  case Nil
  show ?case by simp
next
  case (Cons c cs)
  have "map fst (foldl count_step (count_step d c) cs)
        = unique_loop cs (map fst (count_step d c)) (set (map fst (count_step d c)))"
    by (rule Cons.IH)
  then show ?case
    by (simp add: keys_count_step)
qed

lemma keys_column_counts: "map fst (column_counts cols) = unique_columns cols"
  using keys_foldl_counts[of "[]" cols] by (simp add: column_counts_def unique_columns_def)

text \<open>
  C6 (census): \<^verbatim>\<open>counts[name]\<close> is the number of columns that bear the name, a name that
  no column bears has no entry, the order lists every name once in the order of first
  occurrence (the positions of first occurrence increase strictly along it), the
  dictionary's keys come in that same order, and the counts add up to the number of
  columns. Nothing is assumed of the names: they may repeat or be empty, and there may
  be none.
\<close>

theorem census:
  "map_of (column_counts cols) name
     = (if name \<in> set cols then Some (count_list cols name) else None)
   \<and> dict_get (column_counts cols) name 0 = count_list cols name
   \<and> distinct (unique_columns cols)
   \<and> set (unique_columns cols) = set cols
   \<and> sorted_wrt (<) (map (first_index cols) (unique_columns cols))
   \<and> map fst (column_counts cols) = unique_columns cols
   \<and> sum_list (map snd (column_counts cols)) = length cols"
proof -
  have "sum_list (map snd (column_counts cols)) = length cols"
    using foldl_counts_sum [of "[]" cols] by (simp add: column_counts_def)
  moreover have "dict_get (column_counts cols) name 0 = count_list cols name"
    by (simp add: dict_get_def map_of_column_counts)
  ultimately show ?thesis
    by (simp add: map_of_column_counts first_index_sorted keys_column_counts)
qed

theorem census_witness:
  "column_counts [''A'', [], ''A'', ''B'', []] = [(''A'', 2), ([], 2), (''B'', 1)]
   \<and> unique_columns [''A'', [], ''A'', ''B'', []] = [''A'', [], ''B'']
   \<and> map (first_index [''A'', [], ''A'', ''B'', []]) [''A'', [], ''B''] = [0, 1, 3]
   \<and> count_list [''A'', [], ''A'', ''B'', []] [] = 2
   \<and> column_counts [] = [] \<and> unique_columns [] = []"
  using census [of "[''A'', [], ''A'', ''B'', []]" "[]"] census [of "[]" "[]"]
  by (simp add: column_counts_def count_step_def dict_get_def unique_columns_def first_index_def)

subsection \<open>Selecting a column of the target\<close>

lemma reindex_length [simp]: "length (reindex v n) = n"
  by (simp add: reindex_def)

lemma length_filter_fst:
  "length (filter (\<lambda>c. fst c = key) cs) = count_list (map fst cs) key"
  by (induction cs) auto

lemma length_filter_eq: "length (filter (\<lambda>c. c = key) ns) = count_list ns key"
  by (induction ns) auto

lemma filter_eq_replicate: "filter (\<lambda>c. c = key) ns = replicate (count_list ns key) key"
  by (induction ns) auto

lemma getitem_many:
  assumes "2 \<le> count_list (column_names df) key"
  shows "\<exists>cs. getitem df key = Inr (DataFrame cs)"
proof -
  have "2 \<le> length (filter (\<lambda>c. fst c = key) (columns df))"
    using assms by (simp add: length_filter_fst column_names_def)
  then obtain c r where r: "filter (\<lambda>c. fst c = key) (columns df) = c # r" "1 \<le> length r"
    by (cases "filter (\<lambda>c. fst c = key) (columns df)") auto
  then obtain d cs where "r = d # cs" by (cases r) auto
  with r(1) have "filter (\<lambda>c. fst c = key) (columns df) = c # d # cs" by simp
  then show ?thesis by (simp add: getitem_def)
qed

lemma getitem_one:
  assumes "count_list (column_names df) key = 1"
  shows "getitem df key = Inr (Series (column_data df key))"
proof -
  have "length (filter (\<lambda>c. fst c = key) (columns df)) = 1"
    using assms by (simp add: length_filter_fst column_names_def)
  then obtain c where "filter (\<lambda>c. fst c = key) (columns df) = [c]"
    by (auto simp: length_Suc_conv)
  then show ?thesis by (simp add: getitem_def column_data_def)
qed

lemma column_data_absent:
  "count_list (column_names df) key = 0 \<Longrightarrow> column_data df key = []"
  by (simp add: column_data_def column_names_def flip: length_filter_fst)

subsection \<open>The loop as a sequence of assignments\<close>

lemma count_list_pos: "x \<in> set xs \<Longrightarrow> 0 < count_list xs x"
  using count_list_0_iff [of xs x] by simp

lemma foldl_assign_Cons:
  "foldl assign df (kv # kvs) = foldl assign (set_item df (fst kv) (snd kv)) kvs"
  by (simp add: assign_def)

lemma add_instances_fold:
  assumes "count_list (column_names new_df) col \<le> 1"
  shows "add_instances df new_df col (filter (\<lambda>c. c = col) (column_names new_df)) ns
         = Inr (foldl assign df
                  (map (\<lambda>i. (instance_name col i,
                        if i < count_list (column_names new_df) col then column_data new_df col else []))
                     ns))"
proof (induction ns arbitrary: df)
  case Nil
  show ?case by simp
next
  case (Cons i ns)
  let ?insts = "filter (\<lambda>c. c = col) (column_names new_df)"
  show ?case
  proof (cases "i < count_list (column_names new_df) col")
    case True
    with assms have one: "count_list (column_names new_df) col = 1" by simp
    from True have "?insts ! i = col" by (simp add: filter_eq_replicate)
    then have "getitem new_df (?insts ! i) = Inr (Series (column_data new_df col))"
      using getitem_one [OF one] by simp
    then show ?thesis using True Cons.IH
      by (simp add: length_filter_eq setitem_def assign_def)
  next
    case False
    then show ?thesis using Cons.IH
      by (simp add: length_filter_eq assign_def)
  qed
qed

lemma add_instances_error:
  assumes "2 \<le> count_list (column_names new_df) col"
  shows "add_instances df new_df col (filter (\<lambda>c. c = col) (column_names new_df)) (0 # ns)
         = Inl ValueError"
proof -
  let ?insts = "filter (\<lambda>c. c = col) (column_names new_df)"
  have len: "0 < length ?insts" using assms by (simp add: length_filter_eq)
  have "?insts ! 0 = col" using assms by (simp add: filter_eq_replicate)
  moreover obtain cs where "getitem new_df col = Inr (DataFrame cs)"
    using getitem_many [OF assms] by blast
  ultimately show ?thesis using len by (simp add: setitem_def)
qed

lemma process_column_fold:
  assumes "count_list (column_names new_df) col \<le> 1"
      and "map_of counts col = Some required"
  shows "process_column counts new_df df col
         = Inr (foldl assign df (assignments_of new_df col required))"
proof (cases "required = 1")
  case True
  let ?insts = "filter (\<lambda>c. c = col) (column_names new_df)"
  show ?thesis
  proof (cases "count_list (column_names new_df) col = 1")
    case one: True
    then have ne: "?insts \<noteq> []" by (simp add: filter_eq_replicate)
    from one have "?insts ! 0 = col" by (simp add: filter_eq_replicate)
    then have "getitem new_df (?insts ! 0) = Inr (Series (column_data new_df col))"
      using getitem_one [OF one] by simp
    then show ?thesis using True assms(2) ne
      by (simp add: process_column_def assignments_of_def setitem_def assign_def)
  next
    case False
    with assms(1) have zero: "count_list (column_names new_df) col = 0" by simp
    then have "?insts = []" by (simp add: filter_eq_replicate)
    then show ?thesis using True assms(2) column_data_absent [OF zero]
      by (simp add: process_column_def assignments_of_def assign_def)
  qed
next
  case False
  have "map (\<lambda>i. (instance_name col i,
              if i < count_list (column_names new_df) col then column_data new_df col else []))
          [0..<required]
        = assignments_of new_df col required"
    unfolding assignments_of_def
  proof (rule map_cong [OF refl])
    fix i assume "i \<in> set [0..<required]"
    show "(instance_name col i,
            if i < count_list (column_names new_df) col then column_data new_df col else [])
          = (if required = 1 then col else instance_name col i,
             if i = 0 then column_data new_df col else [])"
      using False assms(1) column_data_absent [of new_df col]
      by (cases "count_list (column_names new_df) col = 0") auto
  qed
  then show ?thesis using False assms(2) add_instances_fold [OF assms(1), of df "[0..<required]"]
    by (simp add: process_column_def)
qed

lemma process_column_error:
  assumes "2 \<le> count_list (column_names new_df) col"
      and "map_of counts col = Some required" and "0 < required"
  shows "process_column counts new_df df col = Inl ValueError"
proof (cases "required = 1")
  case True
  let ?insts = "filter (\<lambda>c. c = col) (column_names new_df)"
  have ne: "?insts \<noteq> []" using assms(1) by (auto simp: filter_eq_replicate)
  have "?insts ! 0 = col" using assms(1) by (simp add: filter_eq_replicate)
  moreover obtain cs where "getitem new_df col = Inr (DataFrame cs)"
    using getitem_many [OF assms(1)] by blast
  ultimately show ?thesis using True assms(2) ne
    by (simp add: process_column_def setitem_def)
next
  case False
  with assms(3) have "[0..<required] = 0 # [1..<required]" by (simp add: upt_conv_Cons)
  with False assms(2) add_instances_error [OF assms(1), of df "[1..<required]"]
  show ?thesis by (simp add: process_column_def)
qed

lemma process_columns_fold:
  assumes "\<forall>col \<in> set cols. count_list (column_names new_df) col \<le> 1"
      and "\<forall>col \<in> set cols. map_of counts col = Some (req col)"
  shows "process_columns counts new_df df cols
         = Inr (foldl assign df (concat (map (\<lambda>col. assignments_of new_df col (req col)) cols)))"
  using assms
proof (induction cols arbitrary: df)
  case Nil
  show ?case by simp
next
  case (Cons col cols)
  then show ?case by (simp add: process_column_fold)
qed

lemma process_columns_error:
  assumes "\<exists>col \<in> set cols. 2 \<le> count_list (column_names new_df) col"
      and "\<forall>col \<in> set cols. map_of counts col = Some (req col) \<and> 0 < req col"
  shows "process_columns counts new_df df cols = Inl ValueError"
  using assms
proof (induction cols arbitrary: df)
  case Nil
  then show ?case by simp
next
  case (Cons col cols)
  show ?case
  proof (cases "2 \<le> count_list (column_names new_df) col")
    case True
    then show ?thesis using Cons.prems(2) by (simp add: process_column_error)
  next
    case False
    then have "count_list (column_names new_df) col \<le> 1" by simp
    moreover have "\<exists>c \<in> set cols. 2 \<le> count_list (column_names new_df) c"
      using Cons.prems(1) False by auto
    ultimately show ?thesis using Cons.IH Cons.prems(2)
      by (simp add: process_column_fold)
  qed
qed

lemma standardize_data_result:
  "snd (standardize_data base_df new_df)
     = (if \<exists>name \<in> set (column_names base_df). 2 \<le> count_list (column_names new_df) name
        then Inl ValueError
        else Inr (remove_column_numbering
                    (foldl assign empty_frame (assignments (column_names base_df) new_df))))"
proof -
  let ?R = "column_names base_df"
  have req: "\<forall>col \<in> set (unique_columns ?R).
               map_of (column_counts ?R) col = Some (count_list ?R col) \<and> 0 < count_list ?R col"
    by (simp add: map_of_column_counts count_list_pos)
  show ?thesis
  proof (cases "\<exists>name \<in> set ?R. 2 \<le> count_list (column_names new_df) name")
    case True
    then have "process_columns (column_counts ?R) new_df empty_frame (unique_columns ?R)
               = Inl ValueError"
      using req by (intro process_columns_error [where req = "count_list ?R"]) auto
    then show ?thesis using True by (simp add: standardize_data_def)
  next
    case False
    then have "\<forall>col \<in> set (unique_columns ?R). count_list (column_names new_df) col \<le> 1"
      by (auto simp: not_le)
    then have "process_columns (column_counts ?R) new_df empty_frame (unique_columns ?R)
               = Inr (foldl assign empty_frame (assignments ?R new_df))"
      using req unfolding assignments_def
      by (intro process_columns_fold) auto
    then show ?thesis using False by (simp add: standardize_data_def Let_def)
  qed
qed

lemma standardize_data_warnings:
  "fst (standardize_data base_df new_df)
     = map (\<lambda>col. (col, count_list (column_names base_df) col, count_list (column_names new_df) col))
         (filter (\<lambda>col. count_list (column_names new_df) col < count_list (column_names base_df) col)
            (unique_columns (column_names base_df)))"
proof -
  let ?R = "column_names base_df" and ?T = "column_names new_df"
  have *: "column_counts ?R = map (\<lambda>col. (col, count_list ?R col)) (unique_columns ?R)"
  proof (rule nth_equalityI)
    show "length (column_counts ?R) = length (map (\<lambda>col. (col, count_list ?R col)) (unique_columns ?R))"
      using keys_column_counts [of ?R] by (metis length_map)
  next
    fix i assume i: "i < length (column_counts ?R)"
    have d: "distinct (map fst (column_counts ?R))" by (simp add: keys_column_counts)
    have k: "fst (column_counts ?R ! i) = unique_columns ?R ! i"
      using keys_column_counts [of ?R] i by (metis nth_map)
    have "column_counts ?R ! i \<in> set (column_counts ?R)" using i by simp
    then have "map_of (column_counts ?R) (fst (column_counts ?R ! i)) = Some (snd (column_counts ?R ! i))"
      using d by (metis map_of_is_SomeI prod.collapse)
    then have "snd (column_counts ?R ! i) = count_list ?R (fst (column_counts ?R ! i))"
      by (simp add: map_of_column_counts split: if_splits)
    with k i show "column_counts ?R ! i = map (\<lambda>col. (col, count_list ?R col)) (unique_columns ?R) ! i"
      using keys_column_counts [of ?R] by (metis length_map nth_map prod.collapse)
  qed
  have cond: "(case map_of (column_counts ?T) col of None \<Rightarrow> True | Some c \<Rightarrow> c < count_list ?R col)
              = (count_list ?T col < count_list ?R col)"
    if "col \<in> set ?R" for col
    using that count_list_pos [of col ?R] by (simp add: map_of_column_counts)
  have "fst (standardize_data base_df new_df) = missing_instances (column_counts ?R) (column_counts ?T)"
    by (simp add: standardize_data_def Let_def)
  also have "\<dots> = map (\<lambda>col. (col, count_list ?R col, dict_get (column_counts ?T) col 0))
       (filter (\<lambda>col. case map_of (column_counts ?T) col of None \<Rightarrow> True
                                | Some c \<Rightarrow> c < count_list ?R col) (unique_columns ?R))"
    by (simp add: missing_instances_def * filter_map comp_def)
  also have "\<dots> = map (\<lambda>col. (col, count_list ?R col, count_list ?T col))
       (filter (\<lambda>col. count_list ?T col < count_list ?R col) (unique_columns ?R))"
  proof -
    have "dict_get (column_counts ?T) col 0 = count_list ?T col" for col
      by (simp add: dict_get_def map_of_column_counts)
    moreover have "filter (\<lambda>col. case map_of (column_counts ?T) col of None \<Rightarrow> True
                                | Some c \<Rightarrow> c < count_list ?R col) (unique_columns ?R)
          = filter (\<lambda>col. count_list ?T col < count_list ?R col) (unique_columns ?R)"
      by (rule filter_cong [OF refl]) (simp add: cond)
    ultimately show ?thesis by simp
  qed
  finally show ?thesis .
qed

subsection \<open>Names, index and cells after the assignments\<close>

lemma reindex_Nil [simp]: "reindex [] n = replicate n None"
  by (simp add: reindex_def map_replicate_const)

lemma reindex_same: "length v = n \<Longrightarrow> reindex v n = v"
  by (auto simp: reindex_def intro: nth_equalityI)


lemma index_ensure_valid_index:
  "index (ensure_valid_index df v) = (if index df = 0 \<and> v \<noteq> [] then length v else index df)"
  by (simp add: ensure_valid_index_def)



lemma index_set_item:
  "index (set_item df key v) = (if index df = 0 \<and> v \<noteq> [] then length v else index df)"
  by (simp add: set_item_def Let_def index_ensure_valid_index)



lemma index_remove_column_numbering [simp]:
  "index (remove_column_numbering df) = index df"
  by (simp add: remove_column_numbering_def)

lemma padded_set_item:
  assumes "padded n D df" and "v = [] \<or> (v \<in> D \<and> length v = n)"
  shows "padded n D (set_item df key v)"
proof -
  let ?m = "if index df = 0 \<and> v \<noteq> [] then length v else index df"
  let ?df' = "ensure_valid_index df v"
  have m: "index ?df' = ?m" by (simp add: index_ensure_valid_index)
  have mn: "?m = 0 \<or> ?m = n" using assms by (auto simp: padded_def)
  have old: "snd c = replicate ?m None \<or> (snd c \<in> D \<and> ?m = n)" if "c \<in> set (columns ?df')" for c
  proof (cases "index df = 0 \<and> v \<noteq> []")
    case True
    with that obtain c0 where c0: "c0 \<in> set (columns df)" "c = (fst c0, reindex (snd c0) (length v))"
      by (auto simp: ensure_valid_index_def)
    from assms(1) c0(1) True have "snd c0 = [] \<or> (snd c0 \<in> D \<and> n = 0)" by (auto simp: padded_def)
    moreover from True assms(2) have "length v = n" by auto
    ultimately show ?thesis using True c0(2) by auto
  next
    case False
    then have "?df' = df" by (auto simp: ensure_valid_index_def)
    with that assms(1) False show ?thesis by (auto simp: padded_def)
  qed
  have new: "reindex v ?m = replicate ?m None \<or> (reindex v ?m \<in> D \<and> ?m = n)"
  proof (cases "v = []")
    case True
    then show ?thesis by simp
  next
    case False
    with assms have "v \<in> D" "length v = n" "?m = n" by (auto simp: padded_def)
    then show ?thesis by (simp add: reindex_same)
  qed
  have cols: "set (columns (set_item df key v)) \<subseteq> set (columns ?df') \<union> {(key, reindex v ?m)}"
    by (auto simp: set_item_def Let_def m)
  have idx: "index (set_item df key v) = ?m" by (rule index_set_item)
  show ?thesis
    unfolding padded_def idx
  proof (intro conjI ballI)
    show "?m = 0 \<or> ?m = n" by (rule mn)
  next
    fix c assume "c \<in> set (columns (set_item df key v))"
    with cols have "c \<in> set (columns ?df') \<or> c = (key, reindex v ?m)" by auto
    then show "snd c = replicate ?m None \<or> (snd c \<in> D \<and> ?m = n)"
    proof (elim disjE)
      assume "c \<in> set (columns ?df')"
      then show ?thesis by (rule old)
    next
      assume "c = (key, reindex v ?m)"
      then have "snd c = reindex v ?m" by simp
      then show ?thesis using new by (simp only:)
    qed
  qed
qed

lemma padded_foldl:
  assumes "padded n D df" and "\<forall>kv \<in> set kvs. snd kv = [] \<or> (snd kv \<in> D \<and> length (snd kv) = n)"
  shows "padded n D (foldl assign df kvs)"
  using assms
proof (induction kvs arbitrary: df)
  case Nil
  then show ?case by simp
next
  case (Cons kv kvs)
  then show ?case by (simp add: foldl_assign_Cons padded_set_item del: foldl_Cons)
qed

lemma index_foldl:
  assumes "index df = 0 \<or> index df = n" and "\<forall>kv \<in> set kvs. snd kv = [] \<or> length (snd kv) = n"
  shows "index (foldl assign df kvs)
         = (if index df = 0 \<and> (\<exists>kv \<in> set kvs. snd kv \<noteq> []) then n else index df)"
  using assms
proof (induction kvs arbitrary: df)
  case Nil
  then show ?case by simp
next
  case (Cons kv kvs)
  have "index (set_item df (fst kv) (snd kv)) = 0 \<or> index (set_item df (fst kv) (snd kv)) = n"
    using Cons.prems by (auto simp: index_set_item)
  then have "index (foldl assign (set_item df (fst kv) (snd kv)) kvs)
        = (if index (set_item df (fst kv) (snd kv)) = 0 \<and> (\<exists>kv \<in> set kvs. snd kv \<noteq> []) then n
           else index (set_item df (fst kv) (snd kv)))"
    using Cons.prems by (intro Cons.IH) auto
  then show ?case using Cons.prems
    by (auto simp: foldl_assign_Cons index_set_item simp del: foldl_Cons)
qed

subsection \<open>The keys and the series that are assigned\<close>







lemma column_data_cases:
  "column_data df key = [] \<or> (key, column_data df key) \<in> set (columns df)"
proof (cases "filter (\<lambda>c. fst c = key) (columns df)")
  case Nil
  then show ?thesis by (simp add: column_data_def)
next
  case (Cons c cs)
  then have "c \<in> set (filter (\<lambda>c. fst c = key) (columns df))" by simp
  then have "c \<in> set (columns df)" "fst c = key" by auto
  moreover have "column_data df key = snd c" using Cons by (simp add: column_data_def)
  ultimately show ?thesis by (metis prod.collapse)
qed

lemma well_formed_length:
  "well_formed df \<Longrightarrow> c \<in> set (columns df) \<Longrightarrow> length (snd c) = index df"
  by (simp add: well_formed_def list_all_iff)

lemma values_assignments_of:
  assumes "kv \<in> set (assignments_of new_df col required)"
  shows "snd kv = [] \<or> (col, snd kv) \<in> set (columns new_df)"
  using assms column_data_cases [of new_df col]
  by (auto simp: assignments_of_def)

lemma values_assignments:
  assumes "kv \<in> set (assignments base_columns new_df)"
  shows "snd kv = [] \<or> (\<exists>col \<in> set base_columns. (col, snd kv) \<in> set (columns new_df))"
proof -
  from assms obtain col where "col \<in> set (unique_columns base_columns)"
    "kv \<in> set (assignments_of new_df col (count_list base_columns col))"
    by (auto simp: assignments_def)
  then show ?thesis using values_assignments_of [of kv new_df col] by auto
qed

lemma column_data_present:
  assumes "key \<in> set (column_names df)" and "well_formed df"
  shows "length (column_data df key) = index df"
proof -
  from assms(1) obtain c where "c \<in> set (columns df)" "fst c = key"
    by (auto simp: column_names_def)
  then have "filter (\<lambda>c. fst c = key) (columns df) \<noteq> []"
    by (auto simp: filter_empty_conv)
  then obtain d ds where f: "filter (\<lambda>c. fst c = key) (columns df) = d # ds"
    by (cases "filter (\<lambda>c. fst c = key) (columns df)") auto
  then have "d \<in> set (filter (\<lambda>c. fst c = key) (columns df))" by simp
  then have "d \<in> set (columns df)" by simp
  then have "length (snd d) = index df" by (rule well_formed_length [OF assms(2)])
  moreover have "column_data df key = snd d" using f by (simp add: column_data_def)
  ultimately show ?thesis by simp
qed

lemma some_value_iff:
  assumes "well_formed new_df"
  shows "(\<exists>kv \<in> set (assignments base_columns new_df). snd kv \<noteq> [])
         \<longleftrightarrow> index new_df \<noteq> 0 \<and> set base_columns \<inter> set (column_names new_df) \<noteq> {}"
proof
  assume "\<exists>kv \<in> set (assignments base_columns new_df). snd kv \<noteq> []"
  then obtain kv where kv: "kv \<in> set (assignments base_columns new_df)" "snd kv \<noteq> []" by blast
  from values_assignments [OF kv(1)] kv(2) obtain col where
    col: "col \<in> set base_columns" "(col, snd kv) \<in> set (columns new_df)" by blast
  from col(2) have "col \<in> set (column_names new_df)" by (force simp: column_names_def)
  moreover have "length (snd kv) = index new_df"
    using well_formed_length [OF assms col(2)] by simp
  moreover from kv(2) have "length (snd kv) \<noteq> 0" by simp
  ultimately show "index new_df \<noteq> 0 \<and> set base_columns \<inter> set (column_names new_df) \<noteq> {}"
    using col(1) by auto
next
  assume a: "index new_df \<noteq> 0 \<and> set base_columns \<inter> set (column_names new_df) \<noteq> {}"
  then obtain col where col: "col \<in> set base_columns" "col \<in> set (column_names new_df)" by auto
  have pos: "0 < count_list base_columns col" using col(1) by (rule count_list_pos)
  then have "(if count_list base_columns col = 1 then col else instance_name col 0, column_data new_df col)
      \<in> set (assignments_of new_df col (count_list base_columns col))"
    by (auto simp: assignments_of_def image_iff intro!: bexI [of _ 0])
  moreover have "set (assignments_of new_df col (count_list base_columns col))
      \<subseteq> set (assignments base_columns new_df)"
    using col(1) unfolding assignments_def by (intro subsetI) (simp, blast)
  ultimately have "(if count_list base_columns col = 1 then col else instance_name col 0, column_data new_df col)
      \<in> set (assignments base_columns new_df)"
    by (rule rev_subsetD)
  moreover have "column_data new_df col \<noteq> []"
    using column_data_present [OF col(2) assms] a by auto
  ultimately show "\<exists>kv \<in> set (assignments base_columns new_df). snd kv \<noteq> []" by force
qed

subsection \<open>Instance names survive the renaming; fresh keys append columns\<close>






lemma well_formed_set_item:
  assumes "well_formed df"
  shows "well_formed (set_item df key v)"
proof (cases "index df = 0 \<and> v \<noteq> []")
  case True
  then show ?thesis
    by (auto simp: set_item_def Let_def ensure_valid_index_def well_formed_def list_all_iff)
next
  case False
  then have e: "ensure_valid_index df v = df" by (auto simp: ensure_valid_index_def)
  show ?thesis using assms
    by (auto simp: set_item_def Let_def e well_formed_def list_all_iff)
qed

lemma well_formed_foldl: "well_formed df \<Longrightarrow> well_formed (foldl assign df kvs)"
proof (induction kvs arbitrary: df)
  case Nil
  then show ?case by simp
next
  case (Cons kv kvs)
  then show ?case by (simp add: foldl_assign_Cons well_formed_set_item del: foldl_Cons)
qed



subsection \<open>What the output depends on\<close>

lemma assignments_of_cong:
  "column_data new_df' col = column_data new_df col \<Longrightarrow>
   assignments_of new_df' col required = assignments_of new_df col required"
  by (simp add: assignments_of_def)

lemma standardize_data_cong:
  assumes counts: "\<And>col. col \<in> set (column_names base_df) \<Longrightarrow>
             count_list (column_names new_df') col = count_list (column_names new_df) col"
      and data: "\<And>col. col \<in> set (column_names base_df) \<Longrightarrow>
             count_list (column_names new_df) col \<le> 1 \<Longrightarrow>
             column_data new_df' col = column_data new_df col"
  shows "standardize_data base_df new_df' = standardize_data base_df new_df"
proof (rule prod_eqI)
  let ?R = "column_names base_df"
  let ?ys = "filter (\<lambda>col. count_list (column_names new_df) col < count_list ?R col) (unique_columns ?R)"
  have f: "filter (\<lambda>col. count_list (column_names new_df') col < count_list ?R col) (unique_columns ?R) = ?ys"
    by (rule filter_cong [OF refl]) (simp add: counts)
  have m: "map (\<lambda>col. (col, count_list ?R col, count_list (column_names new_df') col)) ?ys
        = map (\<lambda>col. (col, count_list ?R col, count_list (column_names new_df) col)) ?ys"
    by (rule map_cong [OF refl]) (simp add: counts)
  show "fst (standardize_data base_df new_df') = fst (standardize_data base_df new_df)"
    by (simp only: standardize_data_warnings f m)
next
  let ?R = "column_names base_df"
  have twice: "(\<exists>name \<in> set ?R. 2 \<le> count_list (column_names new_df') name)
               = (\<exists>name \<in> set ?R. 2 \<le> count_list (column_names new_df) name)"
    by (rule bex_cong [OF refl]) (simp add: counts)
  have "assignments ?R new_df' = assignments ?R new_df"
    if "\<not> (\<exists>name \<in> set ?R. 2 \<le> count_list (column_names new_df) name)"
    unfolding assignments_def
  proof (intro arg_cong [where f = concat] map_cong [OF refl])
    fix col assume "col \<in> set (unique_columns ?R)"
    then have c: "col \<in> set ?R" by simp
    with that have "count_list (column_names new_df) col \<le> 1" by (auto simp: not_le)
    then have "column_data new_df' col = column_data new_df col" using c by (intro data)
    then show "assignments_of new_df' col (count_list ?R col) = assignments_of new_df col (count_list ?R col)"
      by (rule assignments_of_cong)
  qed
  then show "snd (standardize_data base_df new_df') = snd (standardize_data base_df new_df)"
    by (simp add: standardize_data_result twice)
qed

lemma filter_name_restrict:
  assumes "col \<in> A"
  shows "filter (\<lambda>c. fst c = col) (filter (\<lambda>c. fst c \<in> A) cs) = filter (\<lambda>c. fst c = col) cs"
  using assms by (induction cs) auto

lemma referenced_columns_only:
  assumes "filter (\<lambda>c. fst c \<in> set (column_names base_df)) (columns new_df')
           = filter (\<lambda>c. fst c \<in> set (column_names base_df)) (columns new_df)"
  shows "standardize_data base_df new_df' = standardize_data base_df new_df"
proof (rule standardize_data_cong)
  fix col assume c: "col \<in> set (column_names base_df)"
  have f: "filter (\<lambda>c. fst c = col) (columns new_df') = filter (\<lambda>c. fst c = col) (columns new_df)"
    using filter_name_restrict [OF c, of "columns new_df'"] filter_name_restrict [OF c, of "columns new_df"]
      assms by simp
  show "column_data new_df' col = column_data new_df col"
    by (simp add: column_data_def f)
  show "count_list (column_names new_df') col = count_list (column_names new_df) col"
    using f by (simp add: column_names_def flip: length_filter_fst)
qed







lemma empty_frame_simps [simp]:
  "index empty_frame = 0" "columns empty_frame = []" "column_names empty_frame = []"
  by (simp_all add: empty_frame_def column_names_def)

lemma values_lengths:
  assumes "well_formed new_df" and "kv \<in> set (assignments base_columns new_df)"
  shows "snd kv = [] \<or> length (snd kv) = index new_df"
  using values_assignments [OF assms(2)] well_formed_length [OF assms(1)] by fastforce

lemma output_index:
  assumes "well_formed new_df"
  shows "index (foldl assign empty_frame (assignments base_columns new_df))
         = (if set base_columns \<inter> set (column_names new_df) = {} then 0 else index new_df)"
proof -
  have "index (foldl assign empty_frame (assignments base_columns new_df))
        = (if index (empty_frame :: 'a frame) = 0
              \<and> (\<exists>kv \<in> set (assignments base_columns new_df). snd kv \<noteq> [])
           then index new_df else index (empty_frame :: 'a frame))"
    using values_lengths [OF assms] by (intro index_foldl) auto
  then show ?thesis by (auto simp: some_value_iff [OF assms])
qed


subsection \<open>The frame that is saved\<close>

lemma well_formed_remove_column_numbering [simp]:
  "well_formed (remove_column_numbering df) = well_formed df"
  by (simp add: well_formed_def remove_column_numbering_def list_all_iff)

lemma standardize_data_Inr:
  assumes "snd (standardize_data base_df new_df) = Inr out"
  shows "out = remove_column_numbering
                 (foldl assign empty_frame (assignments (column_names base_df) new_df))"
    and "\<forall>name \<in> set (column_names base_df). count_list (column_names new_df) name \<le> 1"
  using assms by (auto simp: standardize_data_result not_le split: if_splits)






section \<open>The claims about \<^verbatim>\<open>standardize_data\<close>\<close>

text \<open>
  In the statements below \<open>base_df\<close> is the reference frame and \<open>new_df\<close> the target
  frame. \<^verbatim>\<open>read_csv\<close> and \<^verbatim>\<open>read_excel\<close> rename repeated headers (\<^verbatim>\<open>B\<close>, \<^verbatim>\<open>B.1\<close>,
  \<^verbatim>\<open>B.2\<close>, ...), so the frames that \<^verbatim>\<open>read_file\<close> returns have pairwise distinct column
  names; the code itself counts repeated names and has a branch for a name required more
  than once, and the statements cover every frame. Two conditions recur:
  \<^item> no reference name is borne by two or more target columns (otherwise
    \<^verbatim>\<open>new_df[name]\<close> is a frame, and assigning it to one column raises);
  \<^item> the working names are pairwise distinct, that is, no reference name required once is
    spelled like an instance name \<^verbatim>\<open>name_i\<close> of a name required several times (otherwise
    the later assignment overwrites the earlier column).
  Both hold whenever the names of each frame are pairwise distinct.
\<close>




text \<open>
  C2 (row count), as the specification states it: the output has the target's row count,
  also the padded columns. Line 147 assigns a series without cells and leaves the padding
  to the alignment of pandas, which pads to the index the frame has taken from the first
  series with cells: when no reference name is borne by a target column, no such series
  is ever assigned and the frame that is saved has no row.
\<close>

theorem row_count_counterexample:
  "snd (standardize_data
          (\<lparr>index = 0, columns = [(''A'', [])]\<rparr> :: nat frame)
          (\<lparr>index = 2, columns = [(''B'', [Some 1, Some 2])]\<rparr> :: nat frame))
     = Inr \<lparr>index = 0, columns = [(''A'', [])]\<rparr>"
  by code_simp

text \<open>
  C2, amended: whenever a frame is saved, its row count is the target's if a target column
  bears a reference name, and 0 if none does; every column of the output has that many
  cells, and each is either missing values throughout or the cells of a target column
  that bears a reference name. In particular a padded column is filled up to the target's
  row count also when the first reference name is missing from the target, as long as
  another one is present.
\<close>

theorem row_count:
  assumes "well_formed new_df" and "snd (standardize_data base_df new_df) = Inr out"
  shows "index out = (if set (column_names base_df) \<inter> set (column_names new_df) = {} then 0
                      else index new_df)
         \<and> well_formed out
         \<and> (\<forall>c \<in> set (columns out).
               snd c = replicate (index out) None
               \<or> (\<exists>name \<in> set (column_names base_df). (name, snd c) \<in> set (columns new_df)))"
proof -
  let ?R = "column_names base_df"
  let ?X = "foldl assign empty_frame (assignments ?R new_df)"
  let ?D = "{v. \<exists>name \<in> set ?R. (name, v) \<in> set (columns new_df)}"
  have out: "out = remove_column_numbering ?X" by (rule standardize_data_Inr(1) [OF assms(2)])
  have i: "index out = (if set ?R \<inter> set (column_names new_df) = {} then 0 else index new_df)"
    by (simp add: out output_index [OF assms(1)])
  have "well_formed ?X" by (rule well_formed_foldl) (simp add: well_formed_def)
  then have w: "well_formed out" by (simp add: out)
  have "padded (index new_df) ?D ?X"
  proof (rule padded_foldl)
    show "padded (index new_df) ?D empty_frame" by (simp add: padded_def)
    show "\<forall>kv \<in> set (assignments ?R new_df).
            snd kv = [] \<or> (snd kv \<in> ?D \<and> length (snd kv) = index new_df)"
      using values_assignments [of _ ?R new_df] well_formed_length [OF assms(1)] by fastforce
  qed
  then have "\<forall>c \<in> set (columns ?X). snd c = replicate (index ?X) None \<or> snd c \<in> ?D"
    by (auto simp: padded_def)
  then have p: "\<forall>c \<in> set (columns out). snd c = replicate (index out) None
                 \<or> (\<exists>name \<in> set ?R. (name, snd c) \<in> set (columns new_df))"
    by (auto simp: out remove_column_numbering_def)
  from i w p show ?thesis by blast
qed

theorem row_count_witness:
  "well_formed (\<lparr>index = 2, columns = [(''A'', [Some 1, Some 2])]\<rparr> :: nat frame)
   \<and> snd (standardize_data
          (\<lparr>index = 0, columns = [(''X'', []), (''A'', [])]\<rparr> :: nat frame)
          (\<lparr>index = 2, columns = [(''A'', [Some 1, Some 2])]\<rparr> :: nat frame))
     = Inr \<lparr>index = 2, columns = [(''X'', [None, None]), (''A'', [Some 1, Some 2])]\<rparr>
   \<and> well_formed (\<lparr>index = 2, columns = [(''X'', [None, None]), (''A'', [Some 1, Some 2])]\<rparr>
                   :: nat frame)"
proof -
  let ?R = "\<lparr>index = 0, columns = [(''X'', []), (''A'', [])]\<rparr> :: nat frame"
  let ?T = "\<lparr>index = 2, columns = [(''A'', [Some 1, Some 2])]\<rparr> :: nat frame"
  let ?O = "\<lparr>index = 2, columns = [(''X'', [None, None]), (''A'', [Some 1, Some 2])]\<rparr> :: nat frame"
  have w: "well_formed ?T" by (simp add: well_formed_def)
  have r: "snd (standardize_data ?R ?T) = Inr ?O" by code_simp
  have o: "well_formed ?O" using row_count [OF w r] by blast
  show ?thesis using w r o by blast
qed












text \<open>
  C9 (unreferenced columns are dropped): a target column whose name is no reference name
  contributes nothing. Two targets that have the same columns under reference names, in
  the same order, give the same warnings and the same result, whatever their other
  columns are; in particular removing every column of a name that is no reference name
  changes nothing.
\<close>

theorem unreferenced_columns_dropped:
  "(filter (\<lambda>c. fst c \<in> set (column_names base_df)) (columns new_df')
      = filter (\<lambda>c. fst c \<in> set (column_names base_df)) (columns new_df)
    \<longrightarrow> standardize_data base_df new_df' = standardize_data base_df new_df)
   \<and> (name \<notin> set (column_names base_df)
    \<longrightarrow> standardize_data base_df
          (new_df\<lparr>columns := filter (\<lambda>c. fst c \<noteq> name) (columns new_df)\<rparr>)
        = standardize_data base_df new_df)"
proof (intro conjI impI)
  assume "filter (\<lambda>c. fst c \<in> set (column_names base_df)) (columns new_df')
      = filter (\<lambda>c. fst c \<in> set (column_names base_df)) (columns new_df)"
  then show "standardize_data base_df new_df' = standardize_data base_df new_df"
    by (rule referenced_columns_only)
next
  assume n: "name \<notin> set (column_names base_df)"
  have "filter (\<lambda>c. fst c \<in> set (column_names base_df)) (filter (\<lambda>c. fst c \<noteq> name) (columns new_df))
        = filter (\<lambda>c. fst c \<in> set (column_names base_df)) (columns new_df)"
    unfolding filter_filter using n by (intro filter_cong [OF refl]) auto
  then show "standardize_data base_df (new_df\<lparr>columns := filter (\<lambda>c. fst c \<noteq> name) (columns new_df)\<rparr>)
             = standardize_data base_df new_df"
    by (intro referenced_columns_only) simp
qed

theorem unreferenced_columns_dropped_witness:
  "''Extra'' \<notin> set (column_names (\<lparr>index = 0, columns = [(''A'', [])]\<rparr> :: nat frame))
   \<and> standardize_data
       (\<lparr>index = 0, columns = [(''A'', [])]\<rparr> :: nat frame)
       (\<lparr>index = 2, columns = [(''A'', [Some 1, Some 2]), (''Extra'', [Some 7, Some 8])]\<rparr>
          :: nat frame)
     = ([], Inr \<lparr>index = 2, columns = [(''A'', [Some 1, Some 2])]\<rparr>)
   \<and> standardize_data
       (\<lparr>index = 0, columns = [(''A'', [])]\<rparr> :: nat frame)
       (\<lparr>index = 2, columns = [(''A'', [Some 1, Some 2])]\<rparr> :: nat frame)
     = ([], Inr \<lparr>index = 2, columns = [(''A'', [Some 1, Some 2])]\<rparr>)"
proof -
  let ?R = "\<lparr>index = 0, columns = [(''A'', [])]\<rparr> :: nat frame"
  let ?T = "\<lparr>index = 2, columns = [(''A'', [Some 1, Some 2]), (''Extra'', [Some 7, Some 8])]\<rparr>
          :: nat frame"
  have n: "''Extra'' \<notin> set (column_names ?R)" by (simp add: column_names_def)
  have r: "standardize_data ?R ?T = ([], Inr \<lparr>index = 2, columns = [(''A'', [Some 1, Some 2])]\<rparr>)"
    by code_simp
  show ?thesis
    using n r unreferenced_columns_dropped [of ?R ?T ?T "''Extra''"] by simp
qed



end
